theory Spec2Isabelle
  imports
    Main
    "HOL-Library.List_Lexorder"
    "HOL-Library.Char_ord"
    "HOL-Library.Sublist"
    "HOL-Library.AList"
    "HOL-Library.Multiset"
begin

section \<open>Python values used by the scripts\<close>

text \<open>
  A Python \<open>str\<close> is modelled as a \<^typ>\<open>string\<close> whose characters are code points below 256.
  The order on strings is the lexicographic order on code points, which is the order that
  Python's \<open>sorted\<close> uses on \<open>str\<close>.
\<close>

definition isspace :: "char \<Rightarrow> bool" where
  \<comment> \<open>\<open>str.isspace\<close> on one character: TAB..CR, FS..US, space, NEL and NBSP.\<close>
  "isspace c =
     (let n = (of_char c :: nat)
      in (9 \<le> n \<and> n \<le> 13) \<or> (28 \<le> n \<and> n \<le> 32) \<or> n = 133 \<or> n = 160)"

definition strip :: "string \<Rightarrow> string" where
  \<comment> \<open>\<open>s.strip()\<close>\<close>
  "strip s = rev (dropWhile isspace (rev (dropWhile isspace s)))"

definition strip_chars :: "string \<Rightarrow> string \<Rightarrow> string" where
  \<comment> \<open>\<open>s.strip(chars)\<close>\<close>
  "strip_chars chars s =
     rev (dropWhile (\<lambda>c. c \<in> set chars) (rev (dropWhile (\<lambda>c. c \<in> set chars) s)))"


definition replace_char :: "char \<Rightarrow> string \<Rightarrow> string \<Rightarrow> string" where
  \<comment> \<open>\<open>s.replace(old, new)\<close> for a one-character \<open>old\<close>\<close>
  "replace_char old new s = concat (map (\<lambda>c. if c = old then new else [c]) s)"




fun py_split :: "string \<Rightarrow> char \<Rightarrow> string list" where
  \<comment> \<open>\<open>s.split(sep)\<close> for a one-character \<open>sep\<close>\<close>
  "py_split [] sep = [[]]"
| "py_split (c # cs) sep =
     (if c = sep then [] # py_split cs sep
      else (case py_split cs sep of [] \<Rightarrow> [[c]] | w # ws \<Rightarrow> (c # w) # ws))"



definition sorted_reverse :: "('a \<Rightarrow> 'k::linorder) \<Rightarrow> 'a list \<Rightarrow> 'a list" where
  \<comment> \<open>\<open>sorted(xs, key=key, reverse=True)\<close>: the list is reversed, sorted stably by the key,
      and reversed again, so that equal keys keep their original order.\<close>
  "sorted_reverse key xs = rev (sort_key key (rev xs))"

datatype exc_kind =
  ValueError | FileNotFoundError | AttributeError | KeyError | StopIteration | OtherException

record exception =
  kind :: exc_kind
  str :: string  \<comment> \<open>\<open>str(e)\<close>\<close>
  context_stderr :: "string option"
    \<comment> \<open>the text of \<open>e.__context__.stderr\<close>, when that attribute exists\<close>




section \<open>The external collaborators\<close>

record json_item =
  Path :: "string option"
  IsDir :: "bool option"
  ModTime :: "string option"
  Size :: "int option"
  Hashes :: "(string \<rightharpoonup> string) option"

text \<open>
  The rclone wrapper: \<open>lsjson\<close> is the structured listing method, \<open>run_lsjson\<close> is
  \<open>rclone.impl._run(cmd, check=True, capture=True)\<close> for an \<open>lsjson\<close> command followed by
  \<open>json.loads\<close>, and \<open>run_purge\<close> is \<open>_run\<close> for a \<open>purge\<close> command: it changes the remote
  (a state of type \<open>'w\<close>) and either returns or raises.
\<close>

record 'w rclone =
  lsjson :: "string \<Rightarrow> string list \<Rightarrow> exception + json_item list"
  run_lsjson :: "string list \<Rightarrow> exception + json_item list"
  run_purge :: "'w \<Rightarrow> string list \<Rightarrow> exception option \<times> 'w"

record os_env =
  APPDATA :: "string option"
  conf_path :: "string \<Rightarrow> string"
    \<comment> \<open>the text of \<open>Path(appdata) / 'rclone' / 'rclone.conf'\<close>\<close>
  exists :: "string \<Rightarrow> bool"
  log_folder :: string
  start_datetime :: string
  write_file :: "string \<Rightarrow> exception option"
    \<comment> \<open>opening and writing the file of that name: \<open>None\<close> when it succeeds\<close>


section \<open>\<open>rclone_papi.py\<close>: the directory mode\<close>



definition to_create :: "string set \<Rightarrow> string set \<Rightarrow> string list" where
  \<comment> \<open>\<open>sorted(source_list - target_structure)\<close>\<close>
  "to_create source_list target_structure =
     sorted_list_of_set (source_list - target_structure)"

definition to_delete :: "string set \<Rightarrow> string set \<Rightarrow> string list" where
  \<comment> \<open>\<open>sorted(target_structure - source_list)\<close>\<close>
  "to_delete source_list target_structure =
     sorted_list_of_set (target_structure - source_list)"

definition depth :: "string \<Rightarrow> nat" where
  \<comment> \<open>the sort key \<open>lambda p: len(p.split('/'))\<close>\<close>
  "depth p = length (py_split p CHR ''/'')"

definition sorted_to_delete :: "string set \<Rightarrow> string set \<Rightarrow> string list" where
  "sorted_to_delete source_list target_structure =
     sorted_reverse depth (to_delete source_list target_structure)"

definition is_ancestor :: "string \<Rightarrow> string \<Rightarrow> bool" where
  \<comment> \<open>\<open>q\<close> is a directory above \<open>p\<close>: \<open>p\<close> starts with \<open>q\<close> and a separator\<close>
  "is_ancestor q p = prefix (q @ ''/'') p"







definition detect_config :: "os_env \<Rightarrow> exception option" where
  \<comment> \<open>the configuration detection that opens both checks: the exception it raises, if any.
      \<open>if not appdata_path\<close> holds for a variable that is unset and for one that is empty.\<close>
  "detect_config env =
     (case APPDATA env of
        None \<Rightarrow>
          Some \<lparr>kind = ValueError,
                str = ''APPDATA environment variable not found. Set it or hardcode the config path.'',
                context_stderr = None\<rparr>
      | Some appdata_path \<Rightarrow>
          (if appdata_path = [] then
             Some \<lparr>kind = ValueError,
                   str = ''APPDATA environment variable not found. Set it or hardcode the config path.'',
                   context_stderr = None\<rparr>
           else if \<not> exists env (conf_path env appdata_path) then
             Some \<lparr>kind = FileNotFoundError,
                   str = ''rclone.conf not found at '' @ conf_path env appdata_path
                         @ ''. Create it via 'rclone config'.'',
                   context_stderr = None\<rparr>
           else None))"




section \<open>\<open>rclone_papi_st_check.py\<close>: the file mode\<close>

definition rclone_lsjson ::
  "'w rclone \<Rightarrow> string \<Rightarrow> bool \<Rightarrow> bool \<Rightarrow> bool \<Rightarrow> exception + json_item list" where
  "rclone_lsjson rclone path recursive files_only hash =
     run_lsjson rclone
       ([''lsjson'', path]
        @ (if recursive then [''--recursive''] else [])
        @ (if files_only then [''--files-only''] else [])
        @ (if hash then [''--hash''] else []))"

record entry =
  path :: string
  mod_time :: string
  size' :: int
  crc :: string
  is_dir :: bool

definition structure_entry :: "json_item \<Rightarrow> entry" where
  \<comment> \<open>the body of the loops that fill \<open>source_structure\<close> and \<open>target_structure\<close>\<close>
  "structure_entry item =
     \<lparr>path = (case Path item of None \<Rightarrow> [] | Some p \<Rightarrow> p),
      mod_time = (case ModTime item of None \<Rightarrow> [] | Some t \<Rightarrow> t),
      size' = (case Size item of None \<Rightarrow> - 1 | Some n \<Rightarrow> n),
      crc = (case Hashes item of
               None \<Rightarrow> []
             | Some hashes \<Rightarrow> (case hashes ''CRC-32'' of None \<Rightarrow> [] | Some c \<Rightarrow> c)),
      is_dir = (case IsDir item of None \<Rightarrow> False | Some b \<Rightarrow> b)\<rparr>"

definition dict_by_path :: "entry list \<Rightarrow> (string \<times> entry) list" where
  \<comment> \<open>\<open>{item['path']: item for item in structure}\<close>: the keys in insertion order, a later
      item replacing the value of an earlier one with the same path\<close>
  "dict_by_path structure = foldl (\<lambda>d item. AList.update (path item) item d) [] structure"

text \<open>
  A \<open>datetime\<close> object: its fields from the year down to the second are kept as one count of
  whole seconds, beside the microsecond field and the offset from UTC (in microseconds) of
  an aware object.
\<close>

record datetime =
  wall_seconds :: int
  microsecond :: nat
  utcoffset :: "int option"

definition datetime_ne :: "datetime \<Rightarrow> datetime \<Rightarrow> bool" where
  \<comment> \<open>\<open>a != b\<close>: field by field for two naive objects or two of equal offset, by the
      instant for two aware objects, and always true for a naive and an aware one\<close>
  "datetime_ne a b =
     (case (utcoffset a, utcoffset b) of
        (None, None) \<Rightarrow>
          wall_seconds a \<noteq> wall_seconds b \<or> microsecond a \<noteq> microsecond b
      | (Some oa, Some ob) \<Rightarrow>
          if oa = ob then
            wall_seconds a \<noteq> wall_seconds b \<or> microsecond a \<noteq> microsecond b
          else
            wall_seconds a * 1000000 + int (microsecond a) - oa
              \<noteq> wall_seconds b * 1000000 + int (microsecond b) - ob
      | _ \<Rightarrow> True)"

definition time_differs :: "(string \<Rightarrow> datetime option) \<Rightarrow> string \<Rightarrow> string \<Rightarrow> bool" where
  \<comment> \<open>the value of the local \<open>modtime_different\<close>; \<open>fromisoformat\<close> is
      \<open>datetime.fromisoformat\<close>, \<open>None\<close> where it raises\<close>
  "time_differs fromisoformat source_mod_time target_mod_time =
     (case fromisoformat (replace_char CHR ''Z'' ''+00:00'' source_mod_time) of
        None \<Rightarrow> source_mod_time \<noteq> target_mod_time
      | Some source_dt \<Rightarrow>
          (case fromisoformat (replace_char CHR ''Z'' ''+00:00'' target_mod_time) of
             None \<Rightarrow> source_mod_time \<noteq> target_mod_time
           | Some target_dt \<Rightarrow>
               datetime_ne (source_dt\<lparr>microsecond := 0\<rparr>) (target_dt\<lparr>microsecond := 0\<rparr>)))"

datatype diff_type = MISSING_IN_TARGET | MISSING_IN_SOURCE | DIFFERENT

record difference =
  type' :: diff_type
  path :: string
  source_size :: "int option"
  source_modtime :: "string option"
  target_size :: "int option"
  target_modtime :: "string option"
  size_different :: "bool option"
  modtime_different :: "bool option"

definition compare_path ::
  "(string \<Rightarrow> datetime option) \<Rightarrow> (string \<times> entry) list \<Rightarrow> (string \<times> entry) list
     \<Rightarrow> string \<Rightarrow> difference list \<Rightarrow> difference list" where
  \<comment> \<open>one iteration of \<open>for path in sorted(all_paths)\<close>\<close>
  "compare_path fromisoformat source_dict target_dict p differences =
     (case (map_of source_dict p, map_of target_dict p) of
        (Some source_item, None) \<Rightarrow>
          differences @
            [\<lparr>type' = MISSING_IN_TARGET, path = p,
              source_size = Some (size' source_item),
              source_modtime = Some (mod_time source_item),
              target_size = None, target_modtime = None,
              size_different = None, modtime_different = None\<rparr>]
      | (None, Some target_item) \<Rightarrow>
          differences @
            [\<lparr>type' = MISSING_IN_SOURCE, path = p,
              source_size = None, source_modtime = None,
              target_size = Some (size' target_item),
              target_modtime = Some (mod_time target_item),
              size_different = None, modtime_different = None\<rparr>]
      | (Some source_item, Some target_item) \<Rightarrow>
          let size_diff = (size' source_item \<noteq> size' target_item);
              modtime_diff =
                time_differs fromisoformat (mod_time source_item) (mod_time target_item)
          in if size_diff \<or> modtime_diff then
               differences @
                 [\<lparr>type' = DIFFERENT, path = p,
                   source_size = Some (size' source_item),
                   source_modtime = Some (mod_time source_item),
                   target_size = Some (size' target_item),
                   target_modtime = Some (mod_time target_item),
                   size_different = Some size_diff,
                   modtime_different = Some modtime_diff\<rparr>]
             else differences
      | (None, None) \<Rightarrow> differences)"

definition emitted ::
  "(string \<Rightarrow> datetime option) \<Rightarrow> (string \<times> entry) list \<Rightarrow> (string \<times> entry) list
     \<Rightarrow> string \<Rightarrow> bool" where
  \<comment> \<open>the condition under which \<open>compare_path\<close> appends a record for the path\<close>
  "emitted f sd td p =
     (case (map_of sd p, map_of td p) of
        (Some s, None) \<Rightarrow> True
      | (None, Some t) \<Rightarrow> True
      | (Some s, Some t) \<Rightarrow> size' s \<noteq> size' t \<or> time_differs f (mod_time s) (mod_time t)
      | (None, None) \<Rightarrow> False)"

fun compare_loop ::
  "(string \<Rightarrow> datetime option) \<Rightarrow> (string \<times> entry) list \<Rightarrow> (string \<times> entry) list
     \<Rightarrow> string list \<Rightarrow> difference list \<Rightarrow> difference list" where
  "compare_loop fromisoformat source_dict target_dict [] differences = differences"
| "compare_loop fromisoformat source_dict target_dict (p # paths) differences =
     compare_loop fromisoformat source_dict target_dict paths
       (compare_path fromisoformat source_dict target_dict p differences)"

definition compare_structures ::
  "(string \<Rightarrow> datetime option) \<Rightarrow> entry list \<Rightarrow> entry list \<Rightarrow> difference list" where
  \<comment> \<open>step 3 of \<open>complete_file_list_check\<close>: the value of \<open>differences\<close>\<close>
  "compare_structures fromisoformat source_structure target_structure =
     (let source_dict = dict_by_path source_structure;
          target_dict = dict_by_path target_structure;
          all_paths = set (map fst source_dict) \<union> set (map fst target_dict)
      in compare_loop fromisoformat source_dict target_dict (sorted_list_of_set all_paths) [])"

definition complete_file_list_check ::
  "os_env \<Rightarrow> 'w rclone \<Rightarrow> (string \<Rightarrow> datetime option) \<Rightarrow> string \<Rightarrow> string \<Rightarrow> bool
     \<Rightarrow> exception + difference list" where
  "complete_file_list_check env rclone fromisoformat root_src root_dst dry_run =
     (case detect_config env of
        Some e \<Rightarrow> Inl e
      | None \<Rightarrow>
         (case rclone_lsjson rclone root_src True True True of
            Inl e \<Rightarrow> Inl e
          | Inr source_list \<Rightarrow>
             (case rclone_lsjson rclone root_dst True True True of
                Inl e \<Rightarrow> Inl e
              | Inr target_list \<Rightarrow>
                 (case write_file env
                         (log_folder env @ ''/'' @ start_datetime env
                          @ ''_st_check_filelist.txt'') of
                    Some e \<Rightarrow> Inl e
                  | None \<Rightarrow>
                     (let differences =
                            compare_structures fromisoformat
                              (map structure_entry source_list)
                              (map structure_entry target_list)
                      in (case write_file env
                                (log_folder env @ ''/'' @ start_datetime env
                                 @ ''_st_check_difflist.txt'') of
                            Some e \<Rightarrow> Inl e
                          | None \<Rightarrow> Inr differences))))))"


section \<open>The batch input of both scripts\<close>

fun read_rows :: "string list list \<Rightarrow> (string \<times> string) list \<Rightarrow> (string \<times> string) list" where
  \<comment> \<open>the loop \<open>for row in reader\<close>, with \<open>folders_to_sync\<close> as the accumulator\<close>
  "read_rows [] folders_to_sync = folders_to_sync"
| "read_rows (row # rows) folders_to_sync =
     (if length row < 2 then read_rows rows folders_to_sync
      else if strip (row ! 0) = [] then read_rows rows folders_to_sync
      else if strip (row ! 1) = [] then read_rows rows folders_to_sync
      else
        let src = replace_char (CHR 0x5C) ''/'' (strip (row ! 0));
            dst = strip_chars [CHR 0x22] (strip (row ! 1))
        in read_rows rows (folders_to_sync @ [(src, dst)]))"

definition folders_to_sync :: "string list list \<Rightarrow> exception + (string \<times> string) list" where
  \<comment> \<open>the rows that \<open>csv.reader\<close> yields; \<open>next(reader)\<close> raises on an empty file\<close>
  "folders_to_sync reader =
     (case reader of
        [] \<Rightarrow> Inl \<lparr>kind = StopIteration, str = [], context_stderr = None\<rparr>
      | header # rows \<Rightarrow> Inr (read_rows rows []))"


section \<open>Properties of the directory mode\<close>

lemma length_py_split: "length (py_split s sep) = count_list s sep + 1"
  by (induction s) (auto split: list.splits)

lemma depth_count: "depth p = count_list p CHR ''/'' + 1"
  by (simp add: depth_def length_py_split)

lemma mset_sorted_reverse: "mset (sorted_reverse key xs) = mset xs"
  by (simp add: sorted_reverse_def)

lemma sorted_reverse_desc: "sorted_wrt (\<lambda>a b. key b \<le> key a) (sorted_reverse key xs)"
proof -
  have "sorted (map key (sort_key key (rev xs)))" by simp
  then have "sorted_wrt (\<lambda>a b. key a \<le> key b) (sort_key key (rev xs))"
    by (simp add: sorted_map)
  then show ?thesis
    by (simp add: sorted_reverse_def sorted_wrt_rev)
qed

lemma sorted_reverse_stable:
  "filter (\<lambda>x. key x = k) (sorted_reverse key xs) = filter (\<lambda>x. key x = k) xs"
  by (simp add: sorted_reverse_def rev_filter [symmetric] sort_key_stable)

lemma sorted_wrt_combine:
  assumes "sorted_wrt (\<lambda>a b. f b \<le> f a) xs"
    and "\<And>k. sorted_wrt R (filter (\<lambda>x. f x = k) xs)"
  shows "sorted_wrt (\<lambda>a b. (f b :: 'k :: linorder) < f a \<or> (f a = f b \<and> R a b)) xs"
  using assms
proof (induction xs)
  case Nil
  then show ?case by simp
next
  case (Cons x xs)
  have tail: "sorted_wrt R (filter (\<lambda>x. f x = k) xs)" for k
    using Cons.prems(2) [of k] by (simp split: if_splits)
  have rest: "sorted_wrt (\<lambda>a b. f b < f a \<or> (f a = f b \<and> R a b)) xs"
    using Cons.IH Cons.prems(1) tail by simp
  have head: "f y < f x \<or> (f x = f y \<and> R x y)" if "y \<in> set xs" for y
  proof (cases "f y = f x")
    case True
    from Cons.prems(2) [of "f x"] have "\<forall>z \<in> set (filter (\<lambda>z. f z = f x) xs). R x z"
      by simp
    with that True show ?thesis by simp
  next
    case False
    moreover have "f y \<le> f x" using Cons.prems(1) that by simp
    ultimately show ?thesis by simp
  qed
  show ?case using rest head by simp
qed

lemma sorted_to_delete_order:
  assumes "finite D"
  shows "sorted_wrt (\<lambda>a b. depth b < depth a \<or> (depth a = depth b \<and> a < b))
           (sorted_to_delete S D)"
proof -
  have fin: "finite (D - S)" using assms by simp
  have "sorted_wrt (<) (to_delete S D)"
    by (simp add: to_delete_def)
  then have "sorted_wrt (<) (filter (\<lambda>p. depth p = k) (sorted_to_delete S D))" for k
    by (simp add: sorted_to_delete_def sorted_reverse_stable sorted_wrt_filter)
  then show ?thesis
    unfolding sorted_to_delete_def
    by (intro sorted_wrt_combine sorted_reverse_desc) (simp add: sorted_to_delete_def)
qed

lemma set_to_delete: "finite D \<Longrightarrow> set (to_delete S D) = D - S"
  by (simp add: to_delete_def)

lemma mset_sorted_to_delete: "mset (sorted_to_delete S D) = mset (to_delete S D)"
  by (simp add: sorted_to_delete_def mset_sorted_reverse)

lemma set_sorted_to_delete: "finite D \<Longrightarrow> set (sorted_to_delete S D) = D - S"
  using mset_sorted_to_delete [of S D] set_to_delete [of D S] by (metis set_mset_mset)

lemma distinct_sorted_to_delete: "distinct (sorted_to_delete S D)"
proof -
  have "distinct (to_delete S D)" by (simp add: to_delete_def)
  then show ?thesis
    using mset_sorted_to_delete [of S D] by (metis mset_eq_imp_distinct_iff)
qed

lemma deeper_first:
  assumes "finite D" "i < length (sorted_to_delete S D)" "j < length (sorted_to_delete S D)"
    and "depth (sorted_to_delete S D ! j) < depth (sorted_to_delete S D ! i)"
  shows "i < j"
proof (rule ccontr)
  assume "\<not> i < j"
  moreover have "i \<noteq> j" using assms(4) by auto
  ultimately have "j < i" by simp
  then have "depth (sorted_to_delete S D ! i) < depth (sorted_to_delete S D ! j)
    \<or> (depth (sorted_to_delete S D ! j) = depth (sorted_to_delete S D ! i)
      \<and> sorted_to_delete S D ! j < sorted_to_delete S D ! i)"
    using sorted_to_delete_order [OF assms(1), of S] assms(2)
    by (simp add: sorted_wrt_iff_nth_less)
  with assms(4) show False by simp
qed

lemma depth_append: "depth (q @ ''/'' @ r) = depth q + depth r"
  by (simp add: depth_count)

lemma is_ancestor_depth: "is_ancestor q p \<Longrightarrow> depth q < depth p"
  by (auto simp: is_ancestor_def prefix_def depth_count)

text \<open>
  C1. For finite sets of source and destination paths, \<open>to_create\<close> is the strictly ascending
  list of the paths of the source that the destination lacks, \<open>to_delete\<close> the strictly
  ascending list of the paths of the destination that the source lacks; the two lists share
  no path, and together with the common paths they cover the union of both sets.
\<close>

theorem directory_differ_lists:
  assumes "finite S" and "finite D"
  shows "set (to_create S D) = S - D \<and> sorted_wrt (<) (to_create S D)
       \<and> set (to_delete S D) = D - S \<and> sorted_wrt (<) (to_delete S D)
       \<and> set (to_create S D) \<inter> set (to_delete S D) = {}
       \<and> set (to_create S D) \<union> set (to_delete S D) \<union> (S \<inter> D) = S \<union> D"
  using assms by (auto simp: to_create_def to_delete_def)

theorem directory_differ_lists_witness:
  "finite {''a'', ''a/b'', ''c''} \<and> finite {''c'', ''d''}
   \<and> to_create {''a'', ''a/b'', ''c''} {''c'', ''d''} = [''a'', ''a/b'']
   \<and> to_delete {''a'', ''a/b'', ''c''} {''c'', ''d''} = [''d'']
   \<and> (set (to_create {''a'', ''a/b'', ''c''} {''c'', ''d''}) = {''a'', ''a/b'', ''c''} - {''c'', ''d''}
      \<and> sorted_wrt (<) (to_create {''a'', ''a/b'', ''c''} {''c'', ''d''})
      \<and> set (to_delete {''a'', ''a/b'', ''c''} {''c'', ''d''}) = {''c'', ''d''} - {''a'', ''a/b'', ''c''}
      \<and> sorted_wrt (<) (to_delete {''a'', ''a/b'', ''c''} {''c'', ''d''})
      \<and> set (to_create {''a'', ''a/b'', ''c''} {''c'', ''d''}) \<inter> set (to_delete {''a'', ''a/b'', ''c''} {''c'', ''d''}) = {}
      \<and> set (to_create {''a'', ''a/b'', ''c''} {''c'', ''d''}) \<union> set (to_delete {''a'', ''a/b'', ''c''} {''c'', ''d''}) \<union> ({''a'', ''a/b'', ''c''} \<inter> {''c'', ''d''})
          = {''a'', ''a/b'', ''c''} \<union> {''c'', ''d''})"
proof -
  have s: "finite {''a'', ''a/b'', ''c''}" and d: "finite {''c'', ''d''}"
    by simp_all
  have c: "to_create {''a'', ''a/b'', ''c''} {''c'', ''d''} = [''a'', ''a/b'']"
    by (simp add: to_create_def insert_Diff_if)
  have e: "to_delete {''a'', ''a/b'', ''c''} {''c'', ''d''} = [''d'']"
    by (simp add: to_delete_def insert_Diff_if)
  show ?thesis
    by (rule conjI [OF s conjI [OF d conjI [OF c conjI [OF e directory_differ_lists [OF s d]]]]])
qed

text \<open>
  C2. The deletion order is a permutation of \<open>to_delete\<close>, the depth of a path is its number
  of separators plus one, a deeper path always stands before a shallower one, and paths of
  equal depth stand in ascending order.
\<close>

theorem delete_order_deepest_first:
  assumes "finite D"
  shows "mset (sorted_to_delete S D) = mset (to_delete S D)
       \<and> set (sorted_to_delete S D) = D - S
       \<and> distinct (sorted_to_delete S D)
       \<and> (\<forall>p. depth p = count_list p CHR ''/'' + 1)
       \<and> sorted_wrt (\<lambda>a b. depth b < depth a \<or> (depth a = depth b \<and> a < b))
           (sorted_to_delete S D)
       \<and> (\<forall>i j. i < length (sorted_to_delete S D) \<and> j < length (sorted_to_delete S D)
              \<and> depth (sorted_to_delete S D ! j) < depth (sorted_to_delete S D ! i)
            \<longrightarrow> i < j)"
proof (intro conjI allI impI)
  show "mset (sorted_to_delete S D) = mset (to_delete S D)"
    by (rule mset_sorted_to_delete)
  show "set (sorted_to_delete S D) = D - S"
    using assms by (rule set_sorted_to_delete)
  show "distinct (sorted_to_delete S D)"
    by (rule distinct_sorted_to_delete)
  show "depth p = count_list p CHR ''/'' + 1" for p
    by (rule depth_count)
  show "sorted_wrt (\<lambda>a b. depth b < depth a \<or> (depth a = depth b \<and> a < b))
          (sorted_to_delete S D)"
    using assms by (rule sorted_to_delete_order)
  show "i < j"
    if "i < length (sorted_to_delete S D) \<and> j < length (sorted_to_delete S D)
          \<and> depth (sorted_to_delete S D ! j) < depth (sorted_to_delete S D ! i)" for i j
    using assms that deeper_first by blast
qed

theorem delete_order_deepest_first_witness:
  "finite {''x'', ''x/y'', ''x/y/z'', ''b'', ''a/c'', ''keep''}
   \<and> sorted_to_delete {''keep''} {''x'', ''x/y'', ''x/y/z'', ''b'', ''a/c'', ''keep''}
       = [''x/y/z'', ''a/c'', ''x/y'', ''b'', ''x'']
   \<and> mset (sorted_to_delete {''keep''} {''x'', ''x/y'', ''x/y/z'', ''b'', ''a/c'', ''keep''})
       = mset (to_delete {''keep''} {''x'', ''x/y'', ''x/y/z'', ''b'', ''a/c'', ''keep''})
   \<and> set (sorted_to_delete {''keep''} {''x'', ''x/y'', ''x/y/z'', ''b'', ''a/c'', ''keep''})
       = {''x'', ''x/y'', ''x/y/z'', ''b'', ''a/c'', ''keep''} - {''keep''}"
proof -
  have d: "finite {''x'', ''x/y'', ''x/y/z'', ''b'', ''a/c'', ''keep''}"
    by simp
  have v: "sorted_to_delete {''keep''} {''x'', ''x/y'', ''x/y/z'', ''b'', ''a/c'', ''keep''}
       = [''x/y/z'', ''a/c'', ''x/y'', ''b'', ''x'']"
    by (simp add: sorted_to_delete_def to_delete_def sorted_reverse_def depth_def
        insert_Diff_if)
  note t = delete_order_deepest_first [OF d, of "{''keep''}"]
  show ?thesis
    by (rule conjI [OF d conjI [OF v conjI [OF t [THEN conjunct1]
          t [THEN conjunct2, THEN conjunct1]]]])
qed

text \<open>
  C5, as amended. The deletion order keeps every destination-only path, also below another
  destination-only directory: such a descendant is purged before its ancestor.
\<close>

theorem delete_order_keeps_descendants:
  assumes "finite D" and "q \<in> D - S" and "p \<in> D - S" and "is_ancestor q p"
  shows "\<exists>i j. i < j \<and> j < length (sorted_to_delete S D)
            \<and> sorted_to_delete S D ! i = p \<and> sorted_to_delete S D ! j = q"
proof -
  let ?r = "sorted_to_delete S D"
  have "p \<in> set ?r" and "q \<in> set ?r"
    using assms by (simp_all add: set_sorted_to_delete)
  then obtain i j where i: "i < length ?r" "?r ! i = p" and j: "j < length ?r" "?r ! j = q"
    by (auto simp: in_set_conv_nth)
  have "depth q < depth p" using assms(4) by (rule is_ancestor_depth)
  then have "i < j"
    using deeper_first [OF assms(1), of i S j] i j by simp
  then show ?thesis using i j by blast
qed

theorem delete_order_redundant_child_counterexample:
  "sorted_to_delete {} {''x'', ''x/y''} = [''x/y'', ''x'']
   \<and> ''x'' \<in> {''x'', ''x/y''} - {} \<and> is_ancestor ''x'' ''x/y''"
  by (simp add: sorted_to_delete_def to_delete_def sorted_reverse_def depth_def
      is_ancestor_def)

theorem delete_order_keeps_descendants_witness:
  "finite {''x'', ''x/y''} \<and> ''x'' \<in> {''x'', ''x/y''} - {} \<and> ''x/y'' \<in> {''x'', ''x/y''} - {}
   \<and> is_ancestor ''x'' ''x/y''
   \<and> (\<exists>i j. i < j \<and> j < length (sorted_to_delete {} {''x'', ''x/y''})
            \<and> sorted_to_delete {} {''x'', ''x/y''} ! i = ''x/y''
            \<and> sorted_to_delete {} {''x'', ''x/y''} ! j = ''x'')"
proof -
  have h1: "finite {''x'', ''x/y''}" by simp
  have h2: "''x'' \<in> {''x'', ''x/y''} - {}" by simp
  have h3: "''x/y'' \<in> {''x'', ''x/y''} - {}" by simp
  have h4: "is_ancestor ''x'' ''x/y''" by (simp add: is_ancestor_def)
  show ?thesis
    by (rule conjI [OF h1 conjI [OF h2 conjI [OF h3
          conjI [OF h4 delete_order_keeps_descendants [OF h1 h2 h3 h4]]]]])
qed


section \<open>Properties of the deletion loop\<close>


















section \<open>Properties of the file mode\<close>

lemma find_app:
  "find P (xs @ ys) = (case find P xs of None \<Rightarrow> find P ys | Some x \<Rightarrow> Some x)"
  by (induction xs) simp_all

lemma foldl_update_keys:
  "fst ` set (foldl (\<lambda>d item. AList.update (entry.path item) item d) acc xs)
     = fst ` set acc \<union> entry.path ` set xs"
  by (induction xs arbitrary: acc) (auto simp: AList.dom_update)

lemma foldl_update_distinct:
  "distinct (map fst acc) \<Longrightarrow>
     distinct (map fst (foldl (\<lambda>d item. AList.update (entry.path item) item d) acc xs))"
  by (induction xs arbitrary: acc) (simp_all add: AList.distinct_update)

lemma foldl_update_map_of:
  "map_of (foldl (\<lambda>d item. AList.update (entry.path item) item d) acc xs) p
     = (case find (\<lambda>e. entry.path e = p) (rev xs) of
          Some e \<Rightarrow> Some e
        | None \<Rightarrow> map_of acc p)"
proof (induction xs arbitrary: acc)
  case Nil
  then show ?case by simp
next
  case (Cons x xs)
  show ?case
    by (simp add: Cons.IH AList.update_conv' find_app split: option.splits)
qed

lemma keys_dict_by_path: "fst ` set (dict_by_path xs) = entry.path ` set xs"
  by (simp add: dict_by_path_def foldl_update_keys)

lemma distinct_dict_by_path: "distinct (map fst (dict_by_path xs))"
  by (simp add: dict_by_path_def foldl_update_distinct)

lemma map_of_dict_by_path:
  "map_of (dict_by_path xs) p = find (\<lambda>e. entry.path e = p) (rev xs)"
  by (simp add: dict_by_path_def foldl_update_map_of split: option.splits)

lemma compare_path_acc:
  "compare_path f sd td p ds = ds @ compare_path f sd td p []"
  by (simp add: compare_path_def Let_def split: option.splits)

lemma compare_loop_acc:
  "compare_loop f sd td ps ds = ds @ concat (map (\<lambda>p. compare_path f sd td p []) ps)"
proof (induction ps arbitrary: ds)
  case Nil
  then show ?case by simp
next
  case (Cons p ps)
  show ?case
    by (simp add: Cons.IH) (subst compare_path_acc, simp)
qed

lemma paths_compare_path:
  "map difference.path (compare_path f sd td p []) = (if emitted f sd td p then [p] else [])"
  by (simp add: compare_path_def emitted_def Let_def split: option.splits)

lemma paths_compare_loop:
  "map difference.path (compare_loop f sd td ps []) = filter (emitted f sd td) ps"
  by (induction ps) (simp_all add: compare_loop_acc paths_compare_path map_concat)

lemma paths_compare_structures:
  "map difference.path (compare_structures f src tgt) =
     filter (emitted f (dict_by_path src) (dict_by_path tgt))
       (sorted_list_of_set (entry.path ` set src \<union> entry.path ` set tgt))"
  by (simp add: compare_structures_def Let_def paths_compare_loop keys_dict_by_path)

lemma sorted_paths_compare_structures:
  "sorted_wrt (<) (map difference.path (compare_structures f src tgt))"
  by (simp add: paths_compare_structures sorted_wrt_filter)

lemma emitted_in_keys:
  "emitted f sd td p \<Longrightarrow> p \<in> fst ` set sd \<union> fst ` set td"
  by (auto simp: emitted_def split: option.splits dest: map_of_SomeD intro: rev_image_eqI)

lemma set_paths_compare_structures:
  "set (map difference.path (compare_structures f src tgt)) =
     {p. emitted f (dict_by_path src) (dict_by_path tgt) p}"
  using emitted_in_keys [of f "dict_by_path src" "dict_by_path tgt"]
  by (auto simp: paths_compare_structures keys_dict_by_path)

lemma distinct_paths_compare_structures:
  "distinct (map difference.path (compare_structures f src tgt))"
  using sorted_paths_compare_structures [of f src tgt] by (simp add: strict_sorted_iff)

lemma count_paths_compare_structures:
  "length (filter (\<lambda>d. difference.path d = p) (compare_structures f src tgt)) =
     (if emitted f (dict_by_path src) (dict_by_path tgt) p then 1 else 0)"
proof -
  let ?ds = "compare_structures f src tgt"
  have "length (filter (\<lambda>d. difference.path d = p) ?ds)
      = length (filter (\<lambda>q. q = p) (map difference.path ?ds))"
    by (simp add: filter_map comp_def)
  also have "\<dots> = card ({q. q = p} \<inter> set (map difference.path ?ds))"
    using distinct_paths_compare_structures by (rule distinct_length_filter)
  also have "\<dots> = (if emitted f (dict_by_path src) (dict_by_path tgt) p then 1 else 0)"
    by (simp only: set_paths_compare_structures) auto
  finally show ?thesis .
qed

text \<open>
  C3, as amended. No path has more than one record, and every record is for a path of one
  of the two listings. A path of one listing only has exactly one record; a path of both
  has one record when the sizes or the modification times differ, and none otherwise.
\<close>

theorem each_path_in_at_most_one_record:
  "distinct (map difference.path (compare_structures f src tgt))
   \<and> set (map difference.path (compare_structures f src tgt))
       \<subseteq> entry.path ` set src \<union> entry.path ` set tgt
   \<and> length (filter (\<lambda>d. difference.path d = p) (compare_structures f src tgt)) =
       (case (map_of (dict_by_path src) p, map_of (dict_by_path tgt) p) of
          (Some s, None) \<Rightarrow> 1
        | (None, Some t) \<Rightarrow> 1
        | (Some s, Some t) \<Rightarrow>
            if size' s \<noteq> size' t \<or> time_differs f (mod_time s) (mod_time t) then 1 else 0
        | (None, None) \<Rightarrow> 0)"
proof (intro conjI)
  show "distinct (map difference.path (compare_structures f src tgt))"
    by (rule distinct_paths_compare_structures)
  show "set (map difference.path (compare_structures f src tgt))
       \<subseteq> entry.path ` set src \<union> entry.path ` set tgt"
    using emitted_in_keys [of f "dict_by_path src" "dict_by_path tgt"]
    by (auto simp only: set_paths_compare_structures keys_dict_by_path)
  show "length (filter (\<lambda>d. difference.path d = p) (compare_structures f src tgt)) =
       (case (map_of (dict_by_path src) p, map_of (dict_by_path tgt) p) of
          (Some s, None) \<Rightarrow> 1
        | (None, Some t) \<Rightarrow> 1
        | (Some s, Some t) \<Rightarrow>
            if size' s \<noteq> size' t \<or> time_differs f (mod_time s) (mod_time t) then 1 else 0
        | (None, None) \<Rightarrow> 0)"
    by (simp add: count_paths_compare_structures emitted_def split: option.splits)
qed

theorem each_path_in_at_most_one_record_witness:
  "length (filter (\<lambda>d. difference.path d = ''c.txt'')
     (compare_structures (\<lambda>s. None)
        [\<lparr>entry.path = ''c.txt'', mod_time = ''today'', size' = 4, crc = [], is_dir = False\<rparr>,
         \<lparr>entry.path = ''a.txt'', mod_time = ''2024-01-01T10:00:00.100Z'', size' = 10, crc = ''0a1b2c3d'', is_dir = False\<rparr>]
        [\<lparr>entry.path = ''a.txt'', mod_time = ''2024-01-01T10:00:00.100Z'', size' = 10, crc = ''0a1b2c3d'', is_dir = False\<rparr>])) = 1
   \<and> length (filter (\<lambda>d. difference.path d = ''a.txt'')
     (compare_structures (\<lambda>s. None)
        [\<lparr>entry.path = ''c.txt'', mod_time = ''today'', size' = 4, crc = [], is_dir = False\<rparr>,
         \<lparr>entry.path = ''a.txt'', mod_time = ''2024-01-01T10:00:00.100Z'', size' = 10, crc = ''0a1b2c3d'', is_dir = False\<rparr>]
        [\<lparr>entry.path = ''a.txt'', mod_time = ''2024-01-01T10:00:00.100Z'', size' = 10, crc = ''0a1b2c3d'', is_dir = False\<rparr>])) = 0"
proof -
  define src where "src = [\<lparr>entry.path = ''c.txt'', mod_time = ''today'', size' = 4, crc = [], is_dir = False\<rparr>,
         \<lparr>entry.path = ''a.txt'', mod_time = ''2024-01-01T10:00:00.100Z'', size' = 10, crc = ''0a1b2c3d'', is_dir = False\<rparr>]"
  define tgt where "tgt = [\<lparr>entry.path = ''a.txt'', mod_time = ''2024-01-01T10:00:00.100Z'', size' = 10, crc = ''0a1b2c3d'', is_dir = False\<rparr>]"
  have c: "map_of (dict_by_path src) ''c.txt'' = Some \<lparr>entry.path = ''c.txt'', mod_time = ''today'', size' = 4, crc = [], is_dir = False\<rparr>"
    "map_of (dict_by_path tgt) ''c.txt'' = None"
    by (simp_all add: src_def tgt_def dict_by_path_def)
  have a: "map_of (dict_by_path src) ''a.txt'' = Some \<lparr>entry.path = ''a.txt'', mod_time = ''2024-01-01T10:00:00.100Z'', size' = 10, crc = ''0a1b2c3d'', is_dir = False\<rparr>"
    "map_of (dict_by_path tgt) ''a.txt'' = Some \<lparr>entry.path = ''a.txt'', mod_time = ''2024-01-01T10:00:00.100Z'', size' = 10, crc = ''0a1b2c3d'', is_dir = False\<rparr>"
    by (simp_all add: src_def tgt_def dict_by_path_def)
  have "length (filter (\<lambda>d. difference.path d = ''c.txt'') (compare_structures (\<lambda>s. None) src tgt)) = 1"
    using each_path_in_at_most_one_record [of "(\<lambda>s. None)" src tgt "''c.txt''"]
    unfolding c by simp
  moreover
  have "length (filter (\<lambda>d. difference.path d = ''a.txt'') (compare_structures (\<lambda>s. None) src tgt)) = 0"
    using each_path_in_at_most_one_record [of "(\<lambda>s. None)" src tgt "''a.txt''"]
    unfolding a by (simp add: time_differs_def)
  ultimately show ?thesis
    unfolding src_def tgt_def by (intro conjI)
qed

theorem equal_entries_emit_no_record_counterexample:
  "''a.txt'' \<in> entry.path ` set [\<lparr>entry.path = ''a.txt'', mod_time = ''2024-01-01T10:00:00.100Z'', size' = 10, crc = ''0a1b2c3d'', is_dir = False\<rparr>]
   \<and> compare_structures (\<lambda>s. None)
        [\<lparr>entry.path = ''a.txt'', mod_time = ''2024-01-01T10:00:00.100Z'', size' = 10, crc = ''0a1b2c3d'', is_dir = False\<rparr>]
        [\<lparr>entry.path = ''a.txt'', mod_time = ''2024-01-01T10:00:00.100Z'', size' = 10, crc = ''0a1b2c3d'', is_dir = False\<rparr>] = []"
  by (simp add: compare_structures_def dict_by_path_def compare_path_def time_differs_def)

text \<open>
  C10. The records come in strictly ascending order of their paths, so no path comes twice.
  The list is a function of the two listings and of the parser alone.
\<close>

theorem differences_ascending_by_path:
  "sorted_wrt (<) (map difference.path (compare_structures f src tgt))
   \<and> distinct (map difference.path (compare_structures f src tgt))"
  by (simp add: sorted_paths_compare_structures distinct_paths_compare_structures)

theorem differences_ascending_by_path_witness:
  "map difference.path (compare_structures (\<lambda>s. None)
        [\<lparr>entry.path = ''c.txt'', mod_time = ''today'', size' = 4, crc = [], is_dir = False\<rparr>]
        [\<lparr>entry.path = ''b.txt'', mod_time = ''yesterday'', size' = 3, crc = [], is_dir = False\<rparr>]) = [''b.txt'', ''c.txt'']
   \<and> sorted_wrt (<) (map difference.path (compare_structures (\<lambda>s. None)
        [\<lparr>entry.path = ''c.txt'', mod_time = ''today'', size' = 4, crc = [], is_dir = False\<rparr>]
        [\<lparr>entry.path = ''b.txt'', mod_time = ''yesterday'', size' = 3, crc = [], is_dir = False\<rparr>]))"
proof -
  have v: "map difference.path (compare_structures (\<lambda>s. None)
        [\<lparr>entry.path = ''c.txt'', mod_time = ''today'', size' = 4, crc = [], is_dir = False\<rparr>]
        [\<lparr>entry.path = ''b.txt'', mod_time = ''yesterday'', size' = 3, crc = [], is_dir = False\<rparr>]) = [''b.txt'', ''c.txt'']"
    by (simp add: compare_structures_def dict_by_path_def compare_path_def)
  show ?thesis
    by (rule conjI [OF v differences_ascending_by_path [THEN conjunct1]])
qed

lemma datetime_ne_same:
  "wall_seconds a = wall_seconds b \<Longrightarrow> microsecond a = microsecond b
     \<Longrightarrow> utcoffset a = utcoffset b \<Longrightarrow> \<not> datetime_ne a b"
  by (simp add: datetime_ne_def split: option.splits)

lemma compare_path_equal:
  assumes "map_of sd p = Some x" and "map_of td p = Some y"
    and "size' x = size' y" and "\<not> time_differs f (mod_time x) (mod_time y)"
  shows "compare_path f sd td p ds = ds"
  using assms by (simp add: compare_path_def)

text \<open>
  C4. When both modification times parse, they are compared with their microseconds set to
  zero: two times that differ in the microseconds only do not differ, and with equal sizes
  the path gets no record. When one of them does not parse, the two strings are compared.
\<close>

theorem time_compared_to_the_second:
  "(\<forall>a b. f (replace_char CHR ''Z'' ''+00:00'' s) = Some a
          \<and> f (replace_char CHR ''Z'' ''+00:00'' t) = Some b
       \<longrightarrow> time_differs f s t
            = datetime_ne (a\<lparr>microsecond := 0\<rparr>) (b\<lparr>microsecond := 0\<rparr>)
         \<and> (wall_seconds a = wall_seconds b \<and> utcoffset a = utcoffset b
            \<longrightarrow> \<not> time_differs f s t
               \<and> (\<forall>sd td p ds x y.
                     map_of sd p = Some x \<and> map_of td p = Some y
                     \<and> mod_time x = s \<and> mod_time y = t \<and> size' x = size' y
                   \<longrightarrow> compare_path f sd td p ds = ds)))
   \<and> (f (replace_char CHR ''Z'' ''+00:00'' s) = None
        \<or> f (replace_char CHR ''Z'' ''+00:00'' t) = None
       \<longrightarrow> time_differs f s t = (s \<noteq> t))"
proof -
  have eq: "time_differs f s t
      = datetime_ne (a\<lparr>microsecond := 0\<rparr>) (b\<lparr>microsecond := 0\<rparr>)"
    if "f (replace_char CHR ''Z'' ''+00:00'' s) = Some a"
      and "f (replace_char CHR ''Z'' ''+00:00'' t) = Some b" for a b
    using that by (simp add: time_differs_def)
  have no: "\<not> time_differs f s t"
    if "f (replace_char CHR ''Z'' ''+00:00'' s) = Some a"
      and "f (replace_char CHR ''Z'' ''+00:00'' t) = Some b"
      and "wall_seconds a = wall_seconds b" and "utcoffset a = utcoffset b" for a b
    unfolding eq [OF that(1,2)] using that(3,4) by (intro datetime_ne_same) simp_all
  have keep: "compare_path f sd td p ds = ds"
    if "\<not> time_differs f s t" and "map_of sd p = Some x" and "map_of td p = Some y"
      and "mod_time x = s" and "mod_time y = t" and "size' x = size' y"
    for sd td p ds x y
    using that by (simp add: compare_path_def)
  have fallback: "time_differs f s t = (s \<noteq> t)"
    if "f (replace_char CHR ''Z'' ''+00:00'' s) = None
        \<or> f (replace_char CHR ''Z'' ''+00:00'' t) = None"
    using that by (auto simp: time_differs_def split: option.splits)
  show ?thesis
    using eq no keep fallback by blast
qed

theorem time_compared_to_the_second_witness:
  "\<not> time_differs (\<lambda>s. if s = ''2024-01-01T10:00:00.100+00:00''
              then Some \<lparr>wall_seconds = 63839700000, microsecond = 100000, utcoffset = Some 0\<rparr>
              else if s = ''2024-01-01T10:00:00.600+00:00''
              then Some \<lparr>wall_seconds = 63839700000, microsecond = 600000, utcoffset = Some 0\<rparr>
              else None)
        ''2024-01-01T10:00:00.100Z'' ''2024-01-01T10:00:00.600Z''
   \<and> time_differs (\<lambda>s. None) ''yesterday'' ''today''"
proof -
  define f where "f = (\<lambda>s. if s = ''2024-01-01T10:00:00.100+00:00''
              then Some \<lparr>wall_seconds = 63839700000, microsecond = 100000, utcoffset = Some 0\<rparr>
              else if s = ''2024-01-01T10:00:00.600+00:00''
              then Some \<lparr>wall_seconds = 63839700000, microsecond = 600000, utcoffset = Some 0\<rparr>
              else None)"
  have p1: "f (replace_char CHR ''Z'' ''+00:00'' ''2024-01-01T10:00:00.100Z'') = Some \<lparr>wall_seconds = 63839700000, microsecond = 100000, utcoffset = Some 0\<rparr>"
    and p2: "f (replace_char CHR ''Z'' ''+00:00'' ''2024-01-01T10:00:00.600Z'') = Some \<lparr>wall_seconds = 63839700000, microsecond = 600000, utcoffset = Some 0\<rparr>"
    by (simp_all add: f_def replace_char_def)
  have "\<not> time_differs f ''2024-01-01T10:00:00.100Z'' ''2024-01-01T10:00:00.600Z''"
    using time_compared_to_the_second [of f "''2024-01-01T10:00:00.100Z''" "''2024-01-01T10:00:00.600Z''", THEN conjunct1] p1 p2
    by (simp add: datetime_ne_def)
  moreover have "time_differs (\<lambda>s. None) ''yesterday'' ''today''"
    using time_compared_to_the_second [of "(\<lambda>s. None)" "''yesterday''" "''today''", THEN conjunct2]
    by simp
  ultimately show ?thesis
    unfolding f_def by (intro conjI)
qed

lemma update_apsnd:
  "AList.update k (u v) (map (apsnd u) al) = map (apsnd u) (AList.update k v al)"
  by (induction al) auto

lemma foldl_update_crc:
  "foldl (\<lambda>d item. AList.update (entry.path item) item d) (map (apsnd (\<lambda>e. e\<lparr>crc := g e\<rparr>)) acc)
       (map (\<lambda>e. e\<lparr>crc := g e\<rparr>) xs)
     = map (apsnd (\<lambda>e. e\<lparr>crc := g e\<rparr>))
         (foldl (\<lambda>d item. AList.update (entry.path item) item d) acc xs)"
proof (induction xs arbitrary: acc)
  case Nil
  then show ?case by simp
next
  case (Cons x xs)
  have "AList.update (entry.path x) (x\<lparr>crc := g x\<rparr>) (map (apsnd (\<lambda>e. e\<lparr>crc := g e\<rparr>)) acc)
      = map (apsnd (\<lambda>e. e\<lparr>crc := g e\<rparr>)) (AList.update (entry.path x) x acc)"
    by (rule update_apsnd [where u = "\<lambda>e. e\<lparr>crc := g e\<rparr>"])
  then show ?case by (simp add: Cons.IH)
qed

lemma dict_by_path_crc:
  "dict_by_path (map (\<lambda>e. e\<lparr>crc := g e\<rparr>) xs)
     = map (apsnd (\<lambda>e. e\<lparr>crc := g e\<rparr>)) (dict_by_path xs)"
  using foldl_update_crc [of g "[]" xs] by (simp add: dict_by_path_def)

lemma map_of_apsnd: "map_of (map (apsnd u) al) p = map_option u (map_of al p)"
  by (induction al) auto

lemma compare_path_crc:
  "compare_path f (map (apsnd (\<lambda>e. e\<lparr>crc := g e\<rparr>)) sd)
       (map (apsnd (\<lambda>e. e\<lparr>crc := h e\<rparr>)) td) p ds
     = compare_path f sd td p ds"
  by (simp add: compare_path_def map_of_apsnd Let_def split: option.splits)

lemma compare_loop_crc:
  "compare_loop f (map (apsnd (\<lambda>e. e\<lparr>crc := g e\<rparr>)) sd)
       (map (apsnd (\<lambda>e. e\<lparr>crc := h e\<rparr>)) td) ps ds
     = compare_loop f sd td ps ds"
  by (induction ps arbitrary: ds) (simp_all add: compare_path_crc)

lemma compare_structures_crc:
  "compare_structures f (map (\<lambda>e. e\<lparr>crc := g e\<rparr>) src) (map (\<lambda>e. e\<lparr>crc := h e\<rparr>) tgt)
     = compare_structures f src tgt"
  by (simp add: compare_structures_def dict_by_path_crc compare_loop_crc image_image Let_def)

text \<open>
  C6. A path of both listings with equal sizes and equal times to the second has no record,
  whatever the two checksums are; and no change of the checksums of any entries changes the
  list of differences.
\<close>

theorem equal_size_and_time_is_equal:
  assumes "map_of (dict_by_path src) p = Some x" and "map_of (dict_by_path tgt) p = Some y"
    and "size' x = size' y"
    and "f (replace_char CHR ''Z'' ''+00:00'' (mod_time x)) = Some a"
    and "f (replace_char CHR ''Z'' ''+00:00'' (mod_time y)) = Some b"
    and "\<not> datetime_ne (a\<lparr>microsecond := 0\<rparr>) (b\<lparr>microsecond := 0\<rparr>)"
  shows "p \<notin> set (map difference.path (compare_structures f src tgt))
    \<and> compare_structures f (map (\<lambda>e. e\<lparr>crc := g e\<rparr>) src) (map (\<lambda>e. e\<lparr>crc := h e\<rparr>) tgt)
        = compare_structures f src tgt"
proof -
  have "\<not> time_differs f (mod_time x) (mod_time y)"
    using assms(4-6) by (simp add: time_differs_def)
  then have "\<not> emitted f (dict_by_path src) (dict_by_path tgt) p"
    using assms(1-3) by (simp add: emitted_def)
  then show ?thesis
    by (simp only: set_paths_compare_structures compare_structures_crc) simp
qed

theorem equal_size_and_time_is_equal_witness:
  "''a.txt'' \<notin> set (map difference.path (compare_structures (\<lambda>s. if s = ''2024-01-01T10:00:00.100+00:00''
              then Some \<lparr>wall_seconds = 63839700000, microsecond = 100000, utcoffset = Some 0\<rparr>
              else if s = ''2024-01-01T10:00:00.600+00:00''
              then Some \<lparr>wall_seconds = 63839700000, microsecond = 600000, utcoffset = Some 0\<rparr>
              else None)
        [\<lparr>entry.path = ''a.txt'', mod_time = ''2024-01-01T10:00:00.100Z'', size' = 10, crc = ''0a1b2c3d'', is_dir = False\<rparr>]
        [\<lparr>entry.path = ''a.txt'', mod_time = ''2024-01-01T10:00:00.600Z'', size' = 10, crc = [], is_dir = False\<rparr>]))"
proof -
  define f where "f = (\<lambda>s. if s = ''2024-01-01T10:00:00.100+00:00''
              then Some \<lparr>wall_seconds = 63839700000, microsecond = 100000, utcoffset = Some 0\<rparr>
              else if s = ''2024-01-01T10:00:00.600+00:00''
              then Some \<lparr>wall_seconds = 63839700000, microsecond = 600000, utcoffset = Some 0\<rparr>
              else None)"
  define src where "src = [\<lparr>entry.path = ''a.txt'', mod_time = ''2024-01-01T10:00:00.100Z'', size' = 10, crc = ''0a1b2c3d'', is_dir = False\<rparr>]"
  define tgt where "tgt = [\<lparr>entry.path = ''a.txt'', mod_time = ''2024-01-01T10:00:00.600Z'', size' = 10, crc = [], is_dir = False\<rparr>]"
  have h1: "map_of (dict_by_path src) ''a.txt'' = Some \<lparr>entry.path = ''a.txt'', mod_time = ''2024-01-01T10:00:00.100Z'', size' = 10, crc = ''0a1b2c3d'', is_dir = False\<rparr>"
    and h2: "map_of (dict_by_path tgt) ''a.txt'' = Some \<lparr>entry.path = ''a.txt'', mod_time = ''2024-01-01T10:00:00.600Z'', size' = 10, crc = [], is_dir = False\<rparr>"
    by (simp_all add: src_def tgt_def dict_by_path_def)
  have h3: "size' \<lparr>entry.path = ''a.txt'', mod_time = ''2024-01-01T10:00:00.100Z'', size' = 10, crc = ''0a1b2c3d'', is_dir = False\<rparr> = size' \<lparr>entry.path = ''a.txt'', mod_time = ''2024-01-01T10:00:00.600Z'', size' = 10, crc = [], is_dir = False\<rparr>"
    by simp
  have h4: "f (replace_char CHR ''Z'' ''+00:00'' (mod_time \<lparr>entry.path = ''a.txt'', mod_time = ''2024-01-01T10:00:00.100Z'', size' = 10, crc = ''0a1b2c3d'', is_dir = False\<rparr>)) = Some \<lparr>wall_seconds = 63839700000, microsecond = 100000, utcoffset = Some 0\<rparr>"
    and h5: "f (replace_char CHR ''Z'' ''+00:00'' (mod_time \<lparr>entry.path = ''a.txt'', mod_time = ''2024-01-01T10:00:00.600Z'', size' = 10, crc = [], is_dir = False\<rparr>)) = Some \<lparr>wall_seconds = 63839700000, microsecond = 600000, utcoffset = Some 0\<rparr>"
    by (simp_all add: f_def replace_char_def)
  have h6: "\<not> datetime_ne (\<lparr>wall_seconds = 63839700000, microsecond = 100000, utcoffset = Some 0\<rparr>\<lparr>microsecond := 0\<rparr>) (\<lparr>wall_seconds = 63839700000, microsecond = 600000, utcoffset = Some 0\<rparr>\<lparr>microsecond := 0\<rparr>)"
    by (simp add: datetime_ne_def)
  show ?thesis
    using equal_size_and_time_is_equal [OF h1 h2 h3 h4 h5 h6, THEN conjunct1]
    unfolding f_def src_def tgt_def .
qed


section \<open>Properties of the batch input\<close>

lemma read_rows_acc:
  "read_rows rows acc =
     acc @ map (\<lambda>row. (replace_char (CHR 0x5C) ''/'' (strip (row ! 0)), strip_chars [CHR 0x22] (strip (row ! 1))))
             (filter (\<lambda>row. 2 \<le> length row \<and> strip (row ! 0) \<noteq> [] \<and> strip (row ! 1) \<noteq> []) rows)"
  by (induction rows arbitrary: acc) (simp_all add: Let_def)

lemma rev_dropWhile_takeWhile:
  "xs = rev (dropWhile P (rev xs)) @ rev (takeWhile P (rev xs))"
  by (metis rev_append rev_rev_ident takeWhile_dropWhile_id)

lemma strip_generic_parts:
  "\<exists>pre post. s = pre @ rev (dropWhile P (rev (dropWhile P s))) @ post
      \<and> list_all P pre \<and> list_all P post"
proof -
  let ?m = "dropWhile P s"
  have m: "?m = rev (dropWhile P (rev ?m)) @ rev (takeWhile P (rev ?m))"
    by (rule rev_dropWhile_takeWhile)
  have "s = takeWhile P s @ ?m" by simp
  then have "s = takeWhile P s @ rev (dropWhile P (rev ?m)) @ rev (takeWhile P (rev ?m))"
    using m by simp
  moreover have "list_all P (takeWhile P s)"
    by (auto simp: list_all_iff dest: set_takeWhileD)
  moreover have "list_all P (rev (takeWhile P (rev ?m)))"
    by (auto simp: list_all_iff dest: set_takeWhileD)
  ultimately show ?thesis by blast
qed

lemma strip_generic_ends:
  assumes "rev (dropWhile P (rev (dropWhile P s))) \<noteq> []"
  shows "\<not> P (hd (rev (dropWhile P (rev (dropWhile P s)))))
       \<and> \<not> P (last (rev (dropWhile P (rev (dropWhile P s)))))"
proof -
  let ?m = "dropWhile P s"
  let ?r = "rev (dropWhile P (rev ?m))"
  have ne: "dropWhile P (rev ?m) \<noteq> []" using assms by simp
  have "last ?r = hd (dropWhile P (rev ?m))"
    using ne by (simp add: last_rev)
  then have l: "\<not> P (last ?r)"
    using hd_dropWhile [OF ne] by simp
  have m: "?m = ?r @ rev (takeWhile P (rev ?m))"
    by (rule rev_dropWhile_takeWhile)
  have mne: "?m \<noteq> []"
  proof
    assume "?m = []"
    then have "?r = []" by (simp only: rev.simps dropWhile.simps)
    with assms show False by (simp only:)
  qed
  have "hd ?m = hd ?r"
    using assms by (subst m) simp
  moreover have "\<not> P (hd ?m)" using hd_dropWhile [OF mne] .
  ultimately show ?thesis using l by simp
qed

lemma replace_char_single:
  "replace_char old [new] s = map (\<lambda>c. if c = old then new else c) s"
  by (induction s) (simp_all add: replace_char_def)

lemma strip_chars_only:
  "set s \<subseteq> set chars \<Longrightarrow> strip_chars chars s = []"
proof -
  assume "set s \<subseteq> set chars"
  then have "dropWhile (\<lambda>c. c \<in> set chars) s = []"
    by (induction s) simp_all
  then show ?thesis by (simp only: strip_chars_def rev.simps dropWhile.simps)
qed

text \<open>
  C8. Reading a batch file with a header never raises. The pair list has one pair for each
  row after the header, in order, that has at least two columns and whose first two columns
  are not blank; the other rows are left out. The source of a pair is the stripped first
  column with each backslash replaced by a slash; the destination is the second column
  stripped of whitespace and then of double quotes at both ends. Stripping removes
  only whitespace (only quotes) from the two ends, and what is left neither starts nor ends
  with it.
\<close>

theorem batch_rows_kept_and_normalised:
  "folders_to_sync (header # rows) =
     Inr (map (\<lambda>row. (replace_char (CHR 0x5C) ''/'' (strip (row ! 0)), strip_chars [CHR 0x22] (strip (row ! 1))))
            (filter (\<lambda>row. 2 \<le> length row \<and> strip (row ! 0) \<noteq> [] \<and> strip (row ! 1) \<noteq> []) rows))
   \<and> replace_char (CHR 0x5C) ''/'' s = map (\<lambda>c. if c = CHR 0x5C then CHR ''/'' else c) s
   \<and> (\<exists>pre post. s = pre @ strip s @ post \<and> list_all isspace pre \<and> list_all isspace post)
   \<and> (strip s \<noteq> [] \<longrightarrow> \<not> isspace (hd (strip s)) \<and> \<not> isspace (last (strip s)))
   \<and> (\<exists>pre post. s = pre @ strip_chars [CHR 0x22] s @ post
         \<and> list_all (\<lambda>c. c = CHR 0x22) pre \<and> list_all (\<lambda>c. c = CHR 0x22) post)
   \<and> (strip_chars [CHR 0x22] s \<noteq> []
        \<longrightarrow> hd (strip_chars [CHR 0x22] s) \<noteq> CHR 0x22 \<and> last (strip_chars [CHR 0x22] s) \<noteq> CHR 0x22)"
proof (intro conjI impI)
  show "folders_to_sync (header # rows) =
     Inr (map (\<lambda>row. (replace_char (CHR 0x5C) ''/'' (strip (row ! 0)), strip_chars [CHR 0x22] (strip (row ! 1))))
            (filter (\<lambda>row. 2 \<le> length row \<and> strip (row ! 0) \<noteq> [] \<and> strip (row ! 1) \<noteq> []) rows))"
    by (simp add: folders_to_sync_def read_rows_acc)
  show "replace_char (CHR 0x5C) ''/'' s = map (\<lambda>c. if c = CHR 0x5C then CHR ''/'' else c) s"
    by (rule replace_char_single)
  show "\<exists>pre post. s = pre @ strip s @ post \<and> list_all isspace pre \<and> list_all isspace post"
    unfolding strip_def by (rule strip_generic_parts)
  show "\<not> isspace (hd (strip s))" "\<not> isspace (last (strip s))" if "strip s \<noteq> []"
    using that strip_generic_ends [of isspace s] unfolding strip_def by simp_all
  show "\<exists>pre post. s = pre @ strip_chars [CHR 0x22] s @ post
         \<and> list_all (\<lambda>c. c = CHR 0x22) pre \<and> list_all (\<lambda>c. c = CHR 0x22) post"
    using strip_generic_parts [of s "\<lambda>c. c \<in> set [CHR 0x22]"] by (simp add: strip_chars_def)
  show "hd (strip_chars [CHR 0x22] s) \<noteq> CHR 0x22" "last (strip_chars [CHR 0x22] s) \<noteq> CHR 0x22"
    if "strip_chars [CHR 0x22] s \<noteq> []"
    using that strip_generic_ends [of "\<lambda>c. c \<in> set [CHR 0x22]" s]
    unfolding strip_chars_def by simp_all
qed

text \<open>
  C9. A row whose destination column is not blank but holds double quotes only, beside
  whitespace, is kept: its pair has the empty string as destination.
\<close>

theorem quoted_empty_destination_is_kept:
  assumes "2 \<le> length row" and "strip (row ! 0) \<noteq> []" and "strip (row ! 1) \<noteq> []"
    and "set (strip (row ! 1)) \<subseteq> {CHR 0x22}"
  shows "read_rows (row # rows) acc =
           read_rows rows (acc @ [(replace_char (CHR 0x5C) ''/'' (strip (row ! 0)), [])])
       \<and> folders_to_sync [header, row] = Inr [(replace_char (CHR 0x5C) ''/'' (strip (row ! 0)), [])]"
proof -
  have "strip_chars [CHR 0x22] (strip (row ! 1)) = []"
    using assms(4) by (intro strip_chars_only) simp
  then show ?thesis
    using assms(1-3) by (simp add: folders_to_sync_def Let_def)
qed


theorem batch_rows_kept_and_normalised_witness:
  "folders_to_sync
     [[''source'', ''target''],
      [[CHR ''C'', CHR '':'', CHR 0x5C, CHR ''a''], [CHR '' '', CHR 0x22, CHR ''r'', CHR '':'', CHR ''b'', CHR 0x22, CHR '' '']],
      [''x''],
      [''y'', ''  '']]
   = Inr [(''C:/a'', ''r:b'')]"
proof -
  have s0: "strip [CHR ''C'', CHR '':'', CHR 0x5C, CHR ''a''] = [CHR ''C'', CHR '':'', CHR 0x5C, CHR ''a'']"
    and s1: "strip [CHR '' '', CHR 0x22, CHR ''r'', CHR '':'', CHR ''b'', CHR 0x22, CHR '' '']
              = [CHR 0x22, CHR ''r'', CHR '':'', CHR ''b'', CHR 0x22]"
    and s2: "strip ''  '' = []" and s3: "strip ''y'' = ''y''"
    by (simp_all add: strip_def isspace_def)
  show ?thesis
    using batch_rows_kept_and_normalised
      [of "[''source'', ''target'']"
          "[[[CHR ''C'', CHR '':'', CHR 0x5C, CHR ''a''], [CHR '' '', CHR 0x22, CHR ''r'', CHR '':'', CHR ''b'', CHR 0x22, CHR '' '']],
            [''x''],
            [''y'', ''  '']]" "[]", THEN conjunct1]
    by (simp add: s0 s1 s2 s3 strip_chars_def replace_char_def)
qed

theorem quoted_empty_destination_is_kept_witness:
  "folders_to_sync
     [[''source'', ''target''],
      [[CHR ''C'', CHR '':'', CHR 0x5C, CHR ''d''], [CHR 0x22, CHR 0x22]]]
   = Inr [(''C:/d'', [])]"
proof -
  define row where "row = [[CHR ''C'', CHR '':'', CHR 0x5C, CHR ''d''], [CHR 0x22, CHR 0x22]]"
  have s0: "strip (row ! 0) = [CHR ''C'', CHR '':'', CHR 0x5C, CHR ''d'']"
    and s1: "strip (row ! 1) = [CHR 0x22, CHR 0x22]"
    by (simp_all add: row_def strip_def isspace_def)
  have h1: "2 \<le> length row" by (simp add: row_def)
  have h2: "strip (row ! 0) \<noteq> []" unfolding s0 by simp
  have h3: "strip (row ! 1) \<noteq> []" unfolding s1 by simp
  have h4: "set (strip (row ! 1)) \<subseteq> {CHR 0x22}" unfolding s1 by simp
  have "folders_to_sync [[''source'', ''target''], row]
      = Inr [(replace_char (CHR 0x5C) ''/'' (strip (row ! 0)), [])]"
    using quoted_empty_destination_is_kept [OF h1 h2 h3 h4] by (rule conjunct2)
  then show ?thesis
    unfolding s0 unfolding row_def by (simp add: replace_char_def)
qed

end
